theory Spec2Isabelle
  imports Main
begin

section \<open>Shared types: items, errors, time\<close>

text \<open>
  \<^verbatim>\<open>type Item struct { Title, Channel, GUID string }\<close>.
  A Go \<^verbatim>\<open>error\<close> is an interface value; \<open>None\<close> stands for \<^verbatim>\<open>nil\<close>.
  A \<^verbatim>\<open>time.Time\<close> is an instant, counted in nanoseconds; its range is far wider than
  that of a Duration, so adding a short Duration to a clock reading is exact.
\<close>

record Item =
  Title :: string
  Channel :: string
  GUID :: string

datatype error = Error string

type_synonym time = int

definition millisecond :: time where
  "millisecond = 1000000"

definition second :: time where
  "second = 1000 * millisecond"

text \<open>
  A \<^verbatim>\<open>time.Duration\<close> is a 64-bit signed count of nanoseconds. \<^verbatim>\<open>t.Sub(u)\<close> of the
  time package returns the difference of two instants as a Duration, and the largest
  (or smallest) Duration when the difference does not fit.
\<close>

definition maxDuration :: time where
  "maxDuration = 9223372036854775807"

definition minDuration :: time where
  "minDuration = - 9223372036854775808"

definition time_Sub :: "time \<Rightarrow> time \<Rightarrow> time" where
  "time_Sub t u =
     (let d = t - u
      in if d > maxDuration then maxDuration else if d < minDuration then minDuration else d)"

section \<open>The fake fetcher\<close>

text \<open>\<^verbatim>\<open>fmt.Sprintf("%d", n)\<close> for a length \<open>n\<close>, which is never negative.\<close>

fun decimal :: "nat \<Rightarrow> string" where
  "decimal n =
     (if n < 10 then [''0123456789'' ! n]
      else decimal (n div 10) @ [''0123456789'' ! (n mod 10)])"

declare decimal.simps [simp del]

record fakeFetcher =
  channel :: string
  items :: "Item list"

definition fakeFetch :: "string \<Rightarrow> fakeFetcher" where
  "fakeFetch domain = \<lparr>channel = domain, items = []\<rparr>"

text \<open>
  \<^verbatim>\<open>fakeFetcher.Fetch\<close>. The global \<^verbatim>\<open>FakeDuplicates\<close>, the clock reading
  \<^verbatim>\<open>time.Now()\<close> and the value drawn by \<^verbatim>\<open>rand.Intn(5)\<close> are arguments; the
  receiver is passed in and returned updated. The result triple is
  \<^verbatim>\<open>(items, next, err)\<close>.
\<close>

definition Fetch ::
  "bool \<Rightarrow> time \<Rightarrow> nat \<Rightarrow> fakeFetcher \<Rightarrow> (Item list \<times> time \<times> error option) \<times> fakeFetcher" where
  "Fetch FakeDuplicates now rnd f =
     (let nxt = now + int (rnd mod 5) * 500 * millisecond;
          item = \<lparr>Title = ''Item '' @ decimal (length (items f)), Channel = channel f, GUID = []\<rparr>;
          item = item\<lparr>GUID := Channel item @ ''/'' @ Title item\<rparr>;
          f = f\<lparr>items := items f @ [item]\<rparr>
      in ((if FakeDuplicates then items f else [item], nxt, None), f))"

text \<open>
  The receiver after a sequence of earlier calls, each with its own flag, clock reading
  and random draw.
\<close>

fun Fetch_calls :: "(bool \<times> time \<times> nat) list \<Rightarrow> fakeFetcher \<Rightarrow> fakeFetcher" where
  "Fetch_calls [] f = f"
| "Fetch_calls ((d, now, rnd) # cs) f = Fetch_calls cs (snd (Fetch d now rnd f))"

text \<open>The item the claim describes for call number \<open>n\<close> on a given domain.\<close>

definition generated_item :: "string \<Rightarrow> nat \<Rightarrow> Item" where
  "generated_item domain n =
     \<lparr>Title = ''Item '' @ decimal n, Channel = domain,
      GUID = domain @ ''/'' @ (''Item '' @ decimal n)\<rparr>"

section \<open>The single-source subscription\<close>

text \<open>
  The \<^verbatim>\<open>fetchResult\<close> struct that the fetch goroutine sends back to the loop; its fields
  \<^verbatim>\<open>next\<close> and \<^verbatim>\<open>err\<close> are \<open>res_next\<close> and \<open>res_err\<close> here.
\<close>

record fetchResult =
  fetched :: "Item list"
  res_next :: time
  res_err :: "error option"

definition maxPending :: nat where
  "maxPending = 10"

text \<open>
  The variables of \<^verbatim>\<open>sub.loop\<close> and what the other goroutines see of its channels.
  \<^item> \<open>pending\<close>, \<open>next_at\<close> (the variable \<^verbatim>\<open>next\<close>), \<open>err\<close>, \<open>seen\<close>: the loop's variables;
    a GUID is in \<open>seen\<close> when \<^verbatim>\<open>seen[guid]\<close> is true.
  \<^item> \<open>fetchDone\<close>: whether the variable \<^verbatim>\<open>fetchDone\<close> holds a channel (is not nil).
  \<^item> \<open>running\<close>: the number of fetch goroutines the loop has started whose result it has
    not yet received.
  \<^item> \<open>updates\<close>: the items sent on \<^verbatim>\<open>s.updates\<close> so far, oldest first.
  \<^item> \<open>closed\<close>: \<^verbatim>\<open>close(s.updates)\<close> has run and the loop has returned.
  \<^item> \<open>errc\<close>: what the loop has sent on the channel handed to it by \<^verbatim>\<open>Close\<close>
    (\<open>None\<close>: nothing yet).
\<close>

record sub =
  pending :: "Item list"
  next_at :: time
  err :: "error option"
  seen :: "string set"
  fetchDone :: bool
  running :: nat
  updates :: "Item list"
  closed :: bool
  errc :: "error option option"

text \<open>\<^verbatim>\<open>Subscribe\<close>: the state in which the loop starts. The fetcher is the environment.\<close>

definition Subscribe :: sub where
  "Subscribe = \<lparr>pending = [], next_at = 0, err = None, seen = {}, fetchDone = False,
     running = 0, updates = [], closed = False, errc = None\<rparr>"

text \<open>
  The cases of the loop's \<^verbatim>\<open>select\<close>. \<open>StartFetch t\<close> is the receive from the timer
  channel at the clock reading \<open>t\<close>, which is no earlier than the timer's delay after
  the top of the iteration. \<open>FetchDone result t\<close> is the receive of
  \<open>result\<close> from \<^verbatim>\<open>fetchDone\<close>, with \<open>t\<close> the clock reading of \<^verbatim>\<open>time.Now()\<close> in its
  failure branch; \<open>Send\<close> is a consumer taking \<^verbatim>\<open>first\<close> from \<^verbatim>\<open>updates\<close>.
\<close>

datatype event = Closing | StartFetch time | FetchDone fetchResult time | Send

text \<open>The top of an iteration: the delay, the timer channel and the send channel.\<close>

definition fetchDelay :: "time \<Rightarrow> sub \<Rightarrow> time" where
  "fetchDelay now s = (if next_at s > now then time_Sub (next_at s) now else 0)"

text \<open>\<open>None\<close> is the nil channel; \<open>Some d\<close> is \<^verbatim>\<open>time.After(d)\<close>.\<close>

definition startFetch :: "time \<Rightarrow> sub \<Rightarrow> time option" where
  "startFetch now s =
     (if \<not> fetchDone s \<and> length (pending s) < maxPending then Some (fetchDelay now s) else None)"

text \<open>\<open>None\<close>: the variable \<^verbatim>\<open>updates\<close> is nil; \<open>Some first\<close>: it is \<^verbatim>\<open>s.updates\<close>.\<close>

definition first_updates :: "sub \<Rightarrow> Item option" where
  "first_updates s = (if length (pending s) > 0 then Some (pending s ! 0) else None)"

text \<open>The \<^verbatim>\<open>for _, item := range fetched\<close> loop over \<open>(pending, seen)\<close>.\<close>

fun range_fetched :: "Item list \<Rightarrow> Item list \<times> string set \<Rightarrow> Item list \<times> string set" where
  "range_fetched [] (p, sn) = (p, sn)"
| "range_fetched (item # rest) (p, sn) =
     (if GUID item \<notin> sn then range_fetched rest (p @ [item], insert (GUID item) sn)
      else range_fetched rest (p, sn))"

text \<open>
  One iteration of \<^verbatim>\<open>sub.loop\<close> with the clock reading \<open>now\<close> at its top, taking the
  case \<open>ev\<close>. \<open>None\<close>: that case cannot be taken (its channel is nil or not ready), or
  the loop has returned.
\<close>

definition loop_iter :: "time \<Rightarrow> event \<Rightarrow> sub \<Rightarrow> sub option" where
  "loop_iter now ev s =
     (if closed s then None
      else case ev of
        Closing \<Rightarrow> Some (s\<lparr>errc := Some (err s), closed := True\<rparr>)
      | StartFetch t \<Rightarrow>
          (case startFetch now s of
             None \<Rightarrow> None
           | Some d \<Rightarrow>
               if t < now + d then None
               else Some (s\<lparr>fetchDone := True, running := running s + 1\<rparr>))
      | FetchDone result t \<Rightarrow>
          (if \<not> fetchDone s then None
           else let s = s\<lparr>fetchDone := False, running := running s - 1,
                          next_at := res_next result, err := res_err result\<rparr>
                in if err s \<noteq> None then Some (s\<lparr>next_at := t + 10 * second\<rparr>)
                   else case range_fetched (fetched result) (pending s, seen s) of
                          (p, sn) \<Rightarrow> Some (s\<lparr>pending := p, seen := sn\<rparr>))
      | Send \<Rightarrow>
          (case first_updates s of
             None \<Rightarrow> None
           | Some first \<Rightarrow> Some (s\<lparr>updates := updates s @ [first], pending := drop 1 (pending s)\<rparr>)))"

text \<open>The loop along a sequence of iterations, each with its clock reading and case.\<close>

fun loop :: "(time \<times> event) list \<Rightarrow> sub \<Rightarrow> sub option" where
  "loop [] s = Some s"
| "loop ((now, ev) # evs) s =
     (case loop_iter now ev s of None \<Rightarrow> None | Some s' \<Rightarrow> loop evs s')"

text \<open>
  \<^verbatim>\<open>sub.Close\<close>: the send on \<^verbatim>\<open>s.closing\<close> completes when the loop takes its
  \<open>Closing\<close> case, and the call returns what the loop sends back. \<open>None\<close>: the call
  never returns (the loop has returned already and nothing receives on \<^verbatim>\<open>s.closing\<close>).
\<close>

definition Close :: "time \<Rightarrow> sub \<Rightarrow> (error option \<times> sub) option" where
  "Close now s =
     (case loop_iter now Closing s of
        None \<Rightarrow> None
      | Some s' \<Rightarrow> (case errc s' of None \<Rightarrow> None | Some e \<Rightarrow> Some (e, s')))"

section \<open>The naive subscription\<close>

text \<open>
  Where \<^verbatim>\<open>naiveSub.loop\<close> stands: at the top of the \<^verbatim>\<open>for\<close>, inside
  \<^verbatim>\<open>s.fetcher.Fetch()\<close>, inside a \<^verbatim>\<open>time.Sleep\<close> of the given length, inside the
  \<^verbatim>\<open>range items\<close> loop with the items still to send and the fetch's \<^verbatim>\<open>next\<close>, or
  returned.
\<close>

datatype naive_pc = Top | Fetching | Sleeping time | Sending "Item list" time | Returned

text \<open>
  The fields \<^verbatim>\<open>closed\<close> and \<^verbatim>\<open>err\<close> of \<^verbatim>\<open>naiveSub\<close>, the items sent on
  \<^verbatim>\<open>s.updates\<close> so far, whether \<^verbatim>\<open>close(s.updates)\<close> has run, and the loop's position.
\<close>

record naiveSub =
  nclosed :: bool
  nerr :: "error option"
  nupdates :: "Item list"
  nupdates_closed :: bool
  pc :: naive_pc

definition NaiveSubscribe :: naiveSub where
  "NaiveSubscribe =
     \<lparr>nclosed = False, nerr = None, nupdates = [], nupdates_closed = False, pc = Top\<rparr>"

text \<open>
  \<^verbatim>\<open>naiveSub.Close\<close>: two statements, no channel operation. The caller and the loop
  share \<^verbatim>\<open>closed\<close> and \<^verbatim>\<open>err\<close> without synchronisation; the call is taken
  to run between two steps of the loop, which then sees the flag.
\<close>

definition naiveSub_Close :: "naiveSub \<Rightarrow> error option \<times> naiveSub" where
  "naiveSub_Close s = (let s = s\<lparr>nclosed := True\<rparr> in (nerr s, s))"

text \<open>
  The steps of \<^verbatim>\<open>naiveSub.loop\<close>: the check at the top, the return of
  \<^verbatim>\<open>Fetch\<close> with its three results, a consumer receiving the item being sent, the end
  of the \<^verbatim>\<open>range\<close> loop with the clock reading there, and the end of a sleep.
\<close>

datatype naive_event =
  LoopTop | FetchReturns "Item list" time "error option" | Receive | RangeDone time | Wake

fun naive_loop_step :: "naive_event \<Rightarrow> naiveSub \<Rightarrow> naiveSub option" where
  "naive_loop_step LoopTop s =
     (if pc s \<noteq> Top then None
      else if nclosed s then Some (s\<lparr>nupdates_closed := True, pc := Returned\<rparr>)
      else Some (s\<lparr>pc := Fetching\<rparr>))"
| "naive_loop_step (FetchReturns its nxt e) s =
     (if pc s \<noteq> Fetching then None
      else if e \<noteq> None then Some (s\<lparr>nerr := e, pc := Sleeping (10 * second)\<rparr>)
      else Some (s\<lparr>pc := Sending its nxt\<rparr>))"
| "naive_loop_step Receive s =
     (case pc s of
        Sending (item # rest) nxt \<Rightarrow>
          Some (s\<lparr>nupdates := nupdates s @ [item], pc := Sending rest nxt\<rparr>)
      | _ \<Rightarrow> None)"
| "naive_loop_step (RangeDone now) s =
     (case pc s of
        Sending [] nxt \<Rightarrow>
          Some (s\<lparr>pc := (if nxt > now then Sleeping (time_Sub nxt now) else Top)\<rparr>)
      | _ \<Rightarrow> None)"
| "naive_loop_step Wake s =
     (case pc s of Sleeping d \<Rightarrow> Some (s\<lparr>pc := Top\<rparr>) | _ \<Rightarrow> None)"

fun naive_loop :: "naive_event list \<Rightarrow> naiveSub \<Rightarrow> naiveSub option" where
  "naive_loop [] s = Some s"
| "naive_loop (ev # evs) s =
     (case naive_loop_step ev s of None \<Rightarrow> None | Some s' \<Rightarrow> naive_loop evs s')"

section \<open>The naive merge\<close>

text \<open>
  A forwarding goroutine of \<^verbatim>\<open>NaiveMerge\<close>: waiting in \<^verbatim>\<open>range s.Updates()\<close>,
  holding an item it is sending on \<^verbatim>\<open>m.updates\<close>, finished, or stopped by the
  runtime panic of a send on a closed channel.
\<close>

datatype forwarder = Ranging | Holding Item | Exited | Panicked

text \<open>
  \<^verbatim>\<open>naiveMerge\<close> over children of any kind \<open>'s\<close>: the field \<^verbatim>\<open>subs\<close>, the items
  received from \<^verbatim>\<open>m.updates\<close> so far, whether \<^verbatim>\<open>close(m.updates)\<close> has run, and one
  forwarding goroutine per child.
\<close>

record 's naiveMerge =
  subs :: "'s list"
  m_updates :: "Item list"
  m_closed :: bool
  forwarders :: "forwarder list"

definition NaiveMerge :: "'s list \<Rightarrow> 's naiveMerge" where
  "NaiveMerge ss =
     \<lparr>subs = ss, m_updates = [], m_closed = False, forwarders = replicate (length ss) Ranging\<rparr>"

text \<open>
  The \<^verbatim>\<open>for _, sub := range m.subs\<close> loop of \<^verbatim>\<open>naiveMerge.Close\<close>, with the
  child's \<^verbatim>\<open>Close\<close> as \<open>cl\<close> (\<open>None\<close>: that call never returns) and the named result
  \<^verbatim>\<open>err\<close> as \<open>merr\<close>.
\<close>

fun Close_subs ::
  "('s \<Rightarrow> (error option \<times> 's) option) \<Rightarrow> 's list \<Rightarrow> error option \<Rightarrow>
   (error option \<times> 's list) option" where
  "Close_subs cl [] merr = Some (merr, [])"
| "Close_subs cl (sub # rest) merr =
     (case cl sub of
        None \<Rightarrow> None
      | Some (e, sub') \<Rightarrow>
          (case Close_subs cl rest (if merr = None \<and> e \<noteq> None then e else merr) of
             None \<Rightarrow> None
           | Some (r, rest') \<Rightarrow> Some (r, sub' # rest')))"

text \<open>
  \<^verbatim>\<open>naiveMerge.Close\<close>. \<open>None\<close>: the call does not return, because a child's
  \<^verbatim>\<open>Close\<close> never does or because closing the closed \<^verbatim>\<open>m.updates\<close> panics.
\<close>

definition naiveMerge_Close ::
  "('s \<Rightarrow> (error option \<times> 's) option) \<Rightarrow> 's naiveMerge \<Rightarrow>
   (error option \<times> 's naiveMerge) option" where
  "naiveMerge_Close cl m =
     (case Close_subs cl (subs m) None of
        None \<Rightarrow> None
      | Some (merr, ss) \<Rightarrow>
          if m_closed m then None else Some (merr, m\<lparr>subs := ss, m_closed := True\<rparr>))"

text \<open>
  The goroutines of a merge of single-source subscriptions, interleaved. \<open>Sub i now ev\<close>:
  child \<open>i\<close>'s loop takes one of its fetch cases. \<open>Forward_receive i now\<close>: child \<open>i\<close>'s
  loop takes its \<open>Send\<close> case and forwarder \<open>i\<close> receives the item.
  \<open>Forward_send i\<close>: forwarder \<open>i\<close>'s send on \<^verbatim>\<open>m.updates\<close> ends, received by the
  consumer or, on the closed channel, by a panic. \<open>Forward_exit i\<close>: forwarder \<open>i\<close>'s
  \<^verbatim>\<open>range\<close> ends on the closed channel of its child. \<open>Merge_Close now\<close>: a call of
  \<^verbatim>\<open>naiveMerge.Close\<close> runs from start to end.
\<close>

datatype merge_event =
  Sub nat time event
| Forward_receive nat time
| Forward_send nat
| Forward_exit nat
| Merge_Close time

fun fetch_event :: "event \<Rightarrow> bool" where
  "fetch_event (StartFetch t) = True"
| "fetch_event (FetchDone r t) = True"
| "fetch_event _ = False"

fun merge_step :: "merge_event \<Rightarrow> sub naiveMerge \<Rightarrow> sub naiveMerge option" where
  "merge_step (Sub i now ev) m =
     (if i < length (subs m) \<and> fetch_event ev then
        (case loop_iter now ev (subs m ! i) of
           None \<Rightarrow> None
         | Some s' \<Rightarrow> Some (m\<lparr>subs := (subs m)[i := s']\<rparr>))
      else None)"
| "merge_step (Forward_receive i now) m =
     (if i < length (subs m) \<and> forwarders m ! i = Ranging then
        (case (first_updates (subs m ! i), loop_iter now Send (subs m ! i)) of
           (Some it, Some s') \<Rightarrow>
             Some (m\<lparr>subs := (subs m)[i := s'], forwarders := (forwarders m)[i := Holding it]\<rparr>)
         | _ \<Rightarrow> None)
      else None)"
| "merge_step (Forward_send i) m =
     (if i < length (subs m) then
        (case forwarders m ! i of
           Holding it \<Rightarrow>
             if m_closed m then Some (m\<lparr>forwarders := (forwarders m)[i := Panicked]\<rparr>)
             else Some (m\<lparr>m_updates := m_updates m @ [it],
                          forwarders := (forwarders m)[i := Ranging]\<rparr>)
         | _ \<Rightarrow> None)
      else None)"
| "merge_step (Forward_exit i) m =
     (if i < length (subs m) \<and> forwarders m ! i = Ranging \<and> closed (subs m ! i)
      then Some (m\<lparr>forwarders := (forwarders m)[i := Exited]\<rparr>) else None)"
| "merge_step (Merge_Close now) m = map_option snd (naiveMerge_Close (Close now) m)"

fun merge_run :: "merge_event list \<Rightarrow> sub naiveMerge \<Rightarrow> sub naiveMerge option" where
  "merge_run [] m = Some m"
| "merge_run (ev # evs) m =
     (case merge_step ev m of None \<Rightarrow> None | Some m' \<Rightarrow> merge_run evs m')"

section \<open>The vocabulary of the stated properties\<close>

text \<open>
  Reading a decimal numeral back: the value of a digit character by its code point, the
  value of a string of digits with the most significant digit first (nothing when the
  string is empty or holds another character), and the numerals without a leading zero.
\<close>

definition digit_value :: "char \<Rightarrow> nat option" where
  "digit_value c =
     (let k = (of_char c :: nat) in if 48 \<le> k \<and> k \<le> 57 then Some (k - 48) else None)"

fun digits_value :: "nat \<Rightarrow> string \<Rightarrow> nat option" where
  "digits_value acc [] = Some acc"
| "digits_value acc (c # cs) =
     (case digit_value c of None \<Rightarrow> None | Some d \<Rightarrow> digits_value (10 * acc + d) cs)"

definition read_decimal :: "string \<Rightarrow> nat option" where
  "read_decimal s = (if s = [] then None else digits_value 0 s)"

definition no_leading_zero :: "string \<Rightarrow> bool" where
  "no_leading_zero s = (s = ''0'' \<or> (s \<noteq> [] \<and> hd s \<noteq> CHR ''0''))"

text \<open>
  Keeping the first occurrence of every identity, in the order of first occurrence.
\<close>

fun first_seen :: "Item list \<Rightarrow> Item list" where
  "first_seen [] = []"
| "first_seen (x # xs) = x # first_seen (filter (\<lambda>y. GUID y \<noteq> GUID x) xs)"

text \<open>
  The batches of the fetches that completed without failure along a run of the loop, and
  their items in order of arrival.
\<close>

fun batches :: "(time \<times> event) list \<Rightarrow> Item list list" where
  "batches [] = []"
| "batches ((now, FetchDone r t) # evs) =
     (if res_err r = None then fetched r # batches evs else batches evs)"
| "batches (_ # evs) = batches evs"

definition processed :: "(time \<times> event) list \<Rightarrow> Item list" where
  "processed evs = concat (batches evs)"

text \<open>Everything the loop has put on its queue so far: delivered, then still pending.\<close>

definition enqueued :: "sub \<Rightarrow> Item list" where
  "enqueued s = updates s @ pending s"

text \<open>
  The \<^verbatim>\<open>err\<close> results of the fetches completed along a run, oldest first; the result of
  the latest of them; and the latest failure among them.
\<close>

fun fetch_errs :: "(time \<times> event) list \<Rightarrow> error option list" where
  "fetch_errs [] = []"
| "fetch_errs ((now, FetchDone r t) # evs) = res_err r # fetch_errs evs"
| "fetch_errs (_ # evs) = fetch_errs evs"

definition last_fetch_err :: "(time \<times> event) list \<Rightarrow> error option" where
  "last_fetch_err evs = last (None # fetch_errs evs)"

definition last_failure :: "(time \<times> event) list \<Rightarrow> error option" where
  "last_failure evs = last (None # filter (\<lambda>e. e \<noteq> None) (fetch_errs evs))"

text \<open>The first error that is not nil among the results of the children's closes.\<close>

definition first_error :: "error option list \<Rightarrow> error option" where
  "first_error es = (case filter (\<lambda>e. e \<noteq> None) es of [] \<Rightarrow> None | e # _ \<Rightarrow> e)"

section \<open>Concrete runs\<close>

definition item_A :: Item where
  "item_A = \<lparr>Title = ''A'', Channel = ''feed'', GUID = ''feed/A''\<rparr>"

definition item_B :: Item where
  "item_B = \<lparr>Title = ''B'', Channel = ''feed'', GUID = ''feed/B''\<rparr>"

text \<open>The first fetch returns A, the second A and B; the consumer takes what is offered.\<close>

definition scenario_A_AB :: "(time \<times> event) list" where
  "scenario_A_AB =
     [(0, StartFetch 0), (1, FetchDone \<lparr>fetched = [item_A], res_next = 5, res_err = None\<rparr> 1),
      (2, Send),
      (3, StartFetch 5), (6, FetchDone \<lparr>fetched = [item_A, item_B], res_next = 9, res_err = None\<rparr> 6),
      (7, Send)]"



text \<open>A fetch that fails, then, after the ten seconds, a fetch that succeeds.\<close>

definition failure_then_success :: "(time \<times> event) list" where
  "failure_then_success =
     [(0, StartFetch 0),
      (1, FetchDone \<lparr>fetched = [], res_next = 0, res_err = Some (Error ''timeout'')\<rparr> 1),
      (2, StartFetch 10000000001),
      (10000000002, FetchDone \<lparr>fetched = [item_A], res_next = 10000000005, res_err = None\<rparr> 10000000002)]"

text \<open>
  The same two fetches seen by the naive loop: the failure, the sleep of ten seconds, then
  the success, whose one item a consumer takes.
\<close>

definition naive_failure_then_success :: "naive_event list" where
  "naive_failure_then_success =
     [LoopTop, FetchReturns [] 0 (Some (Error ''timeout'')), Wake,
      LoopTop, FetchReturns [item_A] 10000000005 None, Receive, RangeDone 10000000003, Wake]"

text \<open>
  A merge of one subscription: the child fetches A, its forwarder receives A, and
  \<^verbatim>\<open>Close\<close> is called on the merge before any consumer has taken A.
\<close>

definition close_while_holding :: "merge_event list" where
  "close_while_holding =
     [Sub 0 0 (StartFetch 0),
      Sub 0 1 (FetchDone \<lparr>fetched = [item_A], res_next = 5, res_err = None\<rparr> 1),
      Forward_receive 0 2,
      Merge_Close 3]"

text \<open>A naive subscription that has sent A of the batch A, B and is sending B.\<close>

definition delivering_B :: naiveSub where
  "delivering_B = \<lparr>nclosed = False, nerr = None, nupdates = [item_A], nupdates_closed = False,
     pc = Sending [item_B] 5\<rparr>"

section \<open>Properties of the fake fetcher\<close>

lemma Fetch_snd:
  "snd (Fetch d now rnd f) =
     f\<lparr>items := items f @ [generated_item (channel f) (length (items f))]\<rparr>"
  by (simp add: Fetch_def generated_item_def Let_def)

lemma Fetch_calls_state:
  "channel f = domain \<Longrightarrow> items f = map (generated_item domain) [0..<k] \<Longrightarrow>
   channel (Fetch_calls cs f) = domain \<and>
   items (Fetch_calls cs f) = map (generated_item domain) [0..<k + length cs]"
proof (induction cs arbitrary: f k)
  case Nil
  then show ?case by simp
next
  case (Cons c cs)
  obtain d now rnd where c: "c = (d, now, rnd)" by (cases c) auto
  let ?f = "snd (Fetch d now rnd f)"
  have "channel ?f = domain" using Cons.prems by (simp add: Fetch_snd)
  moreover have "items ?f = map (generated_item domain) [0..<Suc k]"
    using Cons.prems by (simp add: Fetch_snd)
  ultimately show ?case
    using Cons.IH [of ?f "Suc k"] c by simp
qed

lemma digit_value_nth: "k < 10 \<Longrightarrow> digit_value (''0123456789'' ! k) = Some k"
proof -
  assume "k < 10"
  then have "k \<in> {0, 1, 2, 3, 4, 5, 6, 7, 8, 9}"
    by auto
  then show ?thesis
    by (auto simp: digit_value_def)
qed

lemma digit_nth_zero: "k < 10 \<Longrightarrow> (''0123456789'' ! k = CHR ''0'') = (k = 0)"
proof -
  assume "k < 10"
  then have "k \<in> {0, 1, 2, 3, 4, 5, 6, 7, 8, 9}"
    by auto
  then show ?thesis
    by auto
qed

lemma digits_value_snoc:
  "digits_value acc (xs @ [c]) =
     (case digits_value acc xs of
        None \<Rightarrow> None
      | Some v \<Rightarrow> (case digit_value c of None \<Rightarrow> None | Some d \<Rightarrow> Some (10 * v + d)))"
  by (induction xs arbitrary: acc) (auto split: option.splits)

lemma decimal_nonempty: "decimal n \<noteq> []"
  by (subst decimal.simps) simp

lemma decimal_value: "digits_value 0 (decimal n) = Some n"
proof (induction n rule: decimal.induct)
  case (1 n)
  show ?case
  proof (cases "n < 10")
    case True
    then show ?thesis
      by (subst decimal.simps) (simp add: digit_value_nth)
  next
    case False
    then have "digits_value 0 (decimal (n div 10)) = Some (n div 10)"
      using "1.IH" by simp
    then show ?thesis
      using False by (subst decimal.simps) (simp add: digits_value_snoc digit_value_nth)
  qed
qed

lemma decimal_hd: "0 < n \<Longrightarrow> hd (decimal n) \<noteq> CHR ''0''"
proof (induction n rule: decimal.induct)
  case (1 n)
  show ?case
  proof (cases "n < 10")
    case True
    have "decimal n = [''0123456789'' ! n]"
      by (subst decimal.simps) (simp only: True if_True)
    moreover have "''0123456789'' ! n \<noteq> CHR ''0''"
      using digit_nth_zero [OF True] "1.prems" by blast
    ultimately show ?thesis
      by (metis list.sel(1))
  next
    case False
    then have "hd (decimal (n div 10)) \<noteq> CHR ''0''"
      using "1.IH" by simp
    then show ?thesis
      using False by (subst decimal.simps) (simp add: decimal_nonempty)
  qed
qed

lemma decimal_read_back: "read_decimal (decimal n) = Some n \<and> no_leading_zero (decimal n)"
proof -
  have "no_leading_zero (decimal n)"
  proof (cases "n = 0")
    case True
    then show ?thesis
      by (simp add: no_leading_zero_def decimal.simps)
  next
    case False
    then show ?thesis
      using decimal_hd [of n] by (simp add: no_leading_zero_def decimal_nonempty)
  qed
  then show ?thesis
    by (simp add: read_decimal_def decimal_nonempty decimal_value)
qed

text \<open>
  C9. \<^verbatim>\<open>fakeFetcher.Fetch\<close> never returns a failure. After \<open>n\<close> earlier calls on a
  fetcher made for a domain, the next call (call number \<open>n\<close>, counting from zero) returns,
  when \<^verbatim>\<open>FakeDuplicates\<close> is false, exactly one item with the domain as Channel,
  Title "Item n" and GUID Channel + "/" + Title; when it is true, all \<open>n + 1\<close> items
  generated so far, in generation order. The \<open>n\<close> of the title is the decimal numeral
  of \<open>n\<close>: a string of digits without a leading zero that reads back as \<open>n\<close>; call
  number 12 has the title "Item 12".
\<close>

theorem fakeFetcher_Fetch_nth_call:
  "fst (Fetch d now rnd (Fetch_calls cs (fakeFetch domain))) =
     ((if d then map (generated_item domain) [0..<length cs + 1]
       else [\<lparr>Title = ''Item '' @ decimal (length cs), Channel = domain,
              GUID = domain @ ''/'' @ (''Item '' @ decimal (length cs))\<rparr>]),
      now + int (rnd mod 5) * 500 * millisecond, None)
   \<and> read_decimal (decimal (length cs)) = Some (length cs)
   \<and> no_leading_zero (decimal (length cs))
   \<and> Title (generated_item domain k) = ''Item '' @ decimal k
   \<and> read_decimal (decimal k) = Some k \<and> no_leading_zero (decimal k)"
proof -
  let ?f = "Fetch_calls cs (fakeFetch domain)"
  have st: "channel ?f = domain \<and> items ?f = map (generated_item domain) [0..<0 + length cs]"
    by (rule Fetch_calls_state) (simp_all add: fakeFetch_def)
  have "fst (Fetch d now rnd ?f) =
     ((if d then map (generated_item domain) [0..<length cs + 1]
       else [\<lparr>Title = ''Item '' @ decimal (length cs), Channel = domain,
              GUID = domain @ ''/'' @ (''Item '' @ decimal (length cs))\<rparr>]),
      now + int (rnd mod 5) * 500 * millisecond, None)"
    using st by (simp add: Fetch_def Let_def generated_item_def)
  then show ?thesis
    using decimal_read_back [of "length cs"] decimal_read_back [of k]
    by (simp add: generated_item_def)
qed

theorem fakeFetcher_Fetch_nth_call_witness:
  "fst (Fetch False 0 3 (Fetch_calls [(False, 0, 1), (True, 5, 2)] (fakeFetch ''a.org''))) =
     ([\<lparr>Title = ''Item 2'', Channel = ''a.org'', GUID = ''a.org/Item 2''\<rparr>],
      1500000000, None)
   \<and> fst (fst (Fetch True 0 3 (Fetch_calls [(False, 0, 1), (True, 5, 2)] (fakeFetch ''a.org'')))) =
     [\<lparr>Title = ''Item 0'', Channel = ''a.org'', GUID = ''a.org/Item 0''\<rparr>,
      \<lparr>Title = ''Item 1'', Channel = ''a.org'', GUID = ''a.org/Item 1''\<rparr>,
      \<lparr>Title = ''Item 2'', Channel = ''a.org'', GUID = ''a.org/Item 2''\<rparr>]
   \<and> fst (fst (Fetch False 0 3 (Fetch_calls (replicate 12 (False, 0, 1)) (fakeFetch ''a.org'')))) =
     [\<lparr>Title = ''Item 12'', Channel = ''a.org'', GUID = ''a.org/Item 12''\<rparr>]
   \<and> read_decimal ''12'' = Some 12
   \<and> Title (generated_item ''a.org'' 305) = ''Item 305''
   \<and> read_decimal ''305'' = Some 305"
  using fakeFetcher_Fetch_nth_call [of False 0 3 "[(False, 0, 1), (True, 5, 2)]" "''a.org''" 0]
        fakeFetcher_Fetch_nth_call [of True 0 3 "[(False, 0, 1), (True, 5, 2)]" "''a.org''" 0]
        fakeFetcher_Fetch_nth_call [of False 0 3 "replicate 12 (False, 0, 1)" "''a.org''" 305]
  by (simp add: generated_item_def decimal.simps millisecond_def upt_rec)

section \<open>Properties of the single-source subscription\<close>

subsection \<open>Deduplication\<close>

lemma first_seen_GUIDs: "GUID ` set (first_seen xs) = GUID ` set xs"
  by (induction xs rule: first_seen.induct) auto

lemma first_seen_distinct: "distinct (map GUID (first_seen xs))"
  apply (induction xs rule: first_seen.induct)
   apply simp
  using first_seen_GUIDs by fastforce

lemma first_seen_id: "distinct (map GUID xs) \<Longrightarrow> first_seen xs = xs"
proof (induction xs)
  case Nil
  then show ?case by simp
next
  case (Cons x xs)
  then have "filter (\<lambda>y. GUID y \<noteq> GUID x) xs = xs"
    by (auto simp: filter_id_conv image_iff)
  with Cons show ?case by simp
qed

lemma first_seen_append:
  "first_seen (xs @ ys) = first_seen xs @ first_seen (filter (\<lambda>y. GUID y \<notin> GUID ` set xs) ys)"
proof (induction xs arbitrary: ys rule: first_seen.induct)
  case 1
  then show ?case by simp
next
  case (2 x xs)
  let ?xs' = "filter (\<lambda>y. GUID y \<noteq> GUID x) xs"
  have "filter (\<lambda>y. GUID y \<notin> GUID ` set ?xs') (filter (\<lambda>y. GUID y \<noteq> GUID x) ys)
        = filter (\<lambda>y. GUID y \<notin> GUID ` set (x # xs)) ys"
    by (induction ys) auto
  then show ?case
    using "2.IH" [of "filter (\<lambda>y. GUID y \<noteq> GUID x) ys"] by simp
qed

lemma range_fetched_eq:
  "range_fetched b (p, sn) = (p @ first_seen (filter (\<lambda>y. GUID y \<notin> sn) b), sn \<union> GUID ` set b)"
proof (induction b arbitrary: p sn)
  case Nil
  then show ?case by simp
next
  case (Cons item rest)
  have "filter (\<lambda>y. GUID y \<noteq> GUID item) (filter (\<lambda>y. GUID y \<notin> sn) rest)
        = filter (\<lambda>y. GUID y \<notin> insert (GUID item) sn) rest"
    by (induction rest) auto
  then show ?case
    using Cons.IH by auto
qed


lemma first_seen_absorb: "first_seen (first_seen xs @ ys) = first_seen (xs @ ys)"
  by (simp add: first_seen_append [of "first_seen xs"] first_seen_append [of xs]
      first_seen_id first_seen_distinct first_seen_GUIDs)

lemma batches_Cons: "batches (e # evs) = batches [e] @ batches evs"
  by (cases "(e # evs)" rule: batches.cases) auto

lemma head_drop: "xs \<noteq> [] \<Longrightarrow> xs ! 0 # drop (Suc 0) xs = xs"
  by (cases xs) auto

lemma loop_iter_enqueued:
  assumes "loop_iter now ev s = Some s'"
    and "distinct (map GUID (enqueued s))"
    and "seen s = GUID ` set (enqueued s)"
  shows "enqueued s' = first_seen (enqueued s @ concat (batches [(now, ev)]))
         \<and> seen s' = GUID ` set (enqueued s')"
proof (cases ev)
  case Closing
  with assms show ?thesis
    by (auto simp: loop_iter_def enqueued_def first_seen_id split: if_splits)
next
  case (StartFetch t)
  with assms show ?thesis
    by (auto simp: loop_iter_def enqueued_def first_seen_id split: if_splits option.splits)
next
  case (FetchDone r t)
  show ?thesis
  proof (cases "res_err r = None")
    case False
    with assms FetchDone show ?thesis
      by (auto simp: loop_iter_def enqueued_def first_seen_id Let_def split: if_splits)
  next
    case True
    with assms(1) FetchDone
    have p: "pending s' = pending s @ first_seen (filter (\<lambda>y. GUID y \<notin> seen s) (fetched r))"
      and u: "updates s' = updates s"
      and sn: "seen s' = seen s \<union> GUID ` set (fetched r)"
      by (auto simp: loop_iter_def Let_def range_fetched_eq split: if_splits)
    have "enqueued s' = enqueued s @ first_seen (filter (\<lambda>y. GUID y \<notin> seen s) (fetched r))"
      using p u by (simp add: enqueued_def)
    then have "enqueued s' = first_seen (enqueued s @ fetched r)"
      using first_seen_append [of "enqueued s" "fetched r"] first_seen_id [OF assms(2)] assms(3)
      by simp
    moreover have "seen s' = GUID ` set (first_seen (enqueued s @ fetched r))"
      using sn assms(3) by (simp add: first_seen_GUIDs image_Un)
    ultimately show ?thesis
      using True FetchDone by simp
  qed
next
  case Send
  from assms(1) Send have ne: "pending s \<noteq> []"
    and s': "s' = s\<lparr>updates := updates s @ [pending s ! 0], pending := drop 1 (pending s)\<rparr>"
    by (auto simp: loop_iter_def first_updates_def split: if_splits)
  have "enqueued s' = updates s @ (pending s ! 0 # drop (Suc 0) (pending s))"
    by (simp add: s' enqueued_def)
  then have "enqueued s' = enqueued s"
    by (simp only: head_drop [OF ne] enqueued_def)
  moreover have "seen s' = seen s"
    by (simp add: s')
  ultimately show ?thesis
    using assms(3) Send first_seen_id [OF assms(2)] by simp
qed

lemma loop_enqueued:
  "loop evs s = Some s' \<Longrightarrow> distinct (map GUID (enqueued s)) \<Longrightarrow>
   seen s = GUID ` set (enqueued s) \<Longrightarrow>
   enqueued s' = first_seen (enqueued s @ processed evs) \<and> seen s' = GUID ` set (enqueued s')"
proof (induction evs arbitrary: s)
  case Nil
  then show ?case by (simp add: processed_def first_seen_id)
next
  case (Cons e evs)
  obtain now ev where e: "e = (now, ev)" by (cases e) auto
  from Cons.prems(1) e obtain s1 where
    s1: "loop_iter now ev s = Some s1" and rest: "loop evs s1 = Some s'"
    by (auto split: option.splits)
  have st: "enqueued s1 = first_seen (enqueued s @ concat (batches [e]))
            \<and> seen s1 = GUID ` set (enqueued s1)"
    using loop_iter_enqueued [OF s1 Cons.prems(2,3)] e by simp
  have d1: "distinct (map GUID (enqueued s1))"
    using st by (simp add: first_seen_distinct)
  have "enqueued s' = first_seen (enqueued s1 @ processed evs) \<and> seen s' = GUID ` set (enqueued s')"
    using Cons.IH [OF rest d1] st by simp
  moreover have "first_seen (enqueued s1 @ processed evs) = first_seen (enqueued s @ processed (e # evs))"
    using st by (simp add: first_seen_absorb processed_def batches_Cons [of e evs])
  ultimately show ?case by simp
qed

lemma scenario_A_AB_run:
  "loop scenario_A_AB Subscribe =
     Some \<lparr>pending = [], next_at = 9, err = None, seen = {''feed/A'', ''feed/B''},
       fetchDone = False, running = 0, updates = [item_A, item_B], closed = False, errc = None\<rparr>"
  by (simp add: scenario_A_AB_def Subscribe_def loop_iter_def startFetch_def fetchDelay_def time_Sub_def maxDuration_def minDuration_def first_updates_def
      maxPending_def item_A_def item_B_def insert_commute)

text \<open>
  C1. Along every run of the loop of one subscription, whatever the fetches return,
  the items put on the queue (those delivered, followed by those still pending) are the
  items of the successful fetches with only the first occurrence of each GUID kept, in
  order of first occurrence: no GUID is enqueued or delivered twice, and \<open>seen\<close> holds
  exactly the GUIDs enqueued. When the first fetch returns A and the second A, B, the
  consumer receives A, B.
\<close>

theorem sub_loop_first_seen_once:
  assumes "loop evs Subscribe = Some s"
  shows "updates s @ pending s = first_seen (processed evs)
         \<and> distinct (map GUID (updates s @ pending s))
         \<and> seen s = GUID ` set (updates s @ pending s)"
proof -
  have e0: "enqueued Subscribe = []"
    by (simp add: Subscribe_def enqueued_def)
  have "enqueued s = first_seen (enqueued Subscribe @ processed evs)
        \<and> seen s = GUID ` set (enqueued s)"
    by (rule loop_enqueued [OF assms]) (simp_all add: Subscribe_def enqueued_def)
  then have a: "enqueued s = first_seen (processed evs)" and b: "seen s = GUID ` set (enqueued s)"
    using e0 by simp_all
  have c: "distinct (map GUID (enqueued s))"
    using a first_seen_distinct [of "processed evs"] by simp
  show ?thesis
    using a b c unfolding enqueued_def by blast
qed

theorem sub_loop_first_seen_once_witness:
  "loop scenario_A_AB Subscribe \<noteq> None
   \<and> updates (the (loop scenario_A_AB Subscribe)) = [item_A, item_B]
   \<and> first_seen (processed scenario_A_AB) = [item_A, item_B]"
  using sub_loop_first_seen_once [OF scenario_A_AB_run] scenario_A_AB_run
  by (simp add: scenario_A_AB_def processed_def item_A_def item_B_def)

subsection \<open>The length of the pending queue\<close>






subsection \<open>One fetch at a time\<close>








subsection \<open>A failed fetch\<close>

text \<open>
  C4. When a fetch completes with a failure \<open>e\<close>, the loop records \<open>e\<close> as its error and
  sets the next attempt to the clock reading plus ten seconds, whatever happened before;
  the pending queue, the seen set and the items delivered are unchanged and the loop has
  not returned. The naive loop records the failure and sleeps the same ten seconds, and
  sends nothing.
\<close>

theorem fetch_failure_fixed_backoff:
  assumes "\<not> closed s" and "fetchDone s" and "res_err r = Some e"
  shows "loop_iter now (FetchDone r t) s =
           Some (s\<lparr>fetchDone := False, running := running s - 1,
                   next_at := t + 10 * second, err := Some e\<rparr>)
         \<and> naive_loop_step (FetchReturns its nxt (Some e)) (n\<lparr>pc := Fetching\<rparr>) =
           Some (n\<lparr>nerr := Some e, pc := Sleeping (10 * second)\<rparr>)"
  using assms by (simp add: loop_iter_def Let_def)

theorem fetch_failure_fixed_backoff_witness:
  "loop_iter 7 (FetchDone \<lparr>fetched = [item_A], res_next = 8, res_err = Some (Error ''timeout'')\<rparr> 9)
     (Subscribe\<lparr>fetchDone := True, running := 1\<rparr>) =
   Some (Subscribe\<lparr>next_at := 10000000009, err := Some (Error ''timeout'')\<rparr>)
   \<and> naive_loop_step (FetchReturns [item_A] 8 (Some (Error ''timeout''))) (NaiveSubscribe\<lparr>pc := Fetching\<rparr>) =
     Some (NaiveSubscribe\<lparr>nerr := Some (Error ''timeout''), pc := Sleeping 10000000000\<rparr>)"
  using fetch_failure_fixed_backoff [of "Subscribe\<lparr>fetchDone := True, running := 1\<rparr>"
     "\<lparr>fetched = [item_A], res_next = 8, res_err = Some (Error ''timeout'')\<rparr>" "Error ''timeout''"
     7 9 "[item_A]" 8 NaiveSubscribe]
  by (simp add: Subscribe_def NaiveSubscribe_def second_def millisecond_def)

subsection \<open>Closing\<close>

lemma loop_iter_closed: "closed s \<Longrightarrow> loop_iter now ev s = None"
  by (simp add: loop_iter_def)

lemma loop_iter_err:
  "loop_iter now ev s = Some s' \<Longrightarrow> err s' = last (err s # fetch_errs [(now, ev)])"
  by (cases ev)
     (auto simp: loop_iter_def Let_def split: if_splits option.splits prod.splits)

lemma fetch_errs_Cons: "fetch_errs (e # evs) = fetch_errs [e] @ fetch_errs evs"
  by (cases "(e # evs)" rule: fetch_errs.cases) auto

lemma loop_err:
  "loop evs s = Some s' \<Longrightarrow> err s' = last (err s # fetch_errs evs)"
proof (induction evs arbitrary: s)
  case Nil
  then show ?case by simp
next
  case (Cons e evs)
  obtain now ev where e: "e = (now, ev)" by (cases e) auto
  from Cons.prems(1) e obtain s1 where
    s1: "loop_iter now ev s = Some s1" and rest: "loop evs s1 = Some s'"
    by (auto split: option.splits)
  have "err s' = last (err s1 # fetch_errs evs)"
    using Cons.IH [OF rest] .
  also have "err s1 = last (err s # fetch_errs [e])"
    using loop_iter_err [OF s1] e by simp
  finally show ?case
    by (simp add: fetch_errs_Cons [of e evs])
qed

lemma loop_closed:
  "closed s \<Longrightarrow> loop evs s = Some s' \<Longrightarrow> s' = s"
  by (cases evs) (auto simp: loop_iter_closed)

lemma no_failure_all_None:
  "last (None # filter (\<lambda>e. e \<noteq> None) xs) = None \<Longrightarrow> last (None # xs) = (None :: error option)"
proof -
  assume a: "last (None # filter (\<lambda>e. e \<noteq> None) xs) = None"
  have "filter (\<lambda>e. e \<noteq> None) xs = []"
  proof (rule ccontr)
    assume ne: "filter (\<lambda>e. e \<noteq> None) xs \<noteq> []"
    then have "last (filter (\<lambda>e. e \<noteq> None) xs) \<in> set (filter (\<lambda>e. e \<noteq> None) xs)"
      by (rule last_in_set)
    then have "last (filter (\<lambda>e. e \<noteq> None) xs) \<noteq> None"
      by simp
    with a ne show False by simp
  qed
  then have "\<forall>x \<in> set xs. x = None"
    by (simp add: filter_empty_conv)
  then show ?thesis
    by (cases "xs = []") (auto dest: last_in_set)
qed

lemma latest_failed:
  "xs \<noteq> [] \<Longrightarrow> last xs \<noteq> None \<Longrightarrow>
   last (None # xs) = last (None # filter (\<lambda>e. e \<noteq> None) xs)"
proof -
  assume ne: "xs \<noteq> []" and f: "last xs \<noteq> None"
  have "\<exists>x \<in> set xs. x \<noteq> None"
    using f last_in_set [OF ne] by blast
  then have "filter (\<lambda>e. e \<noteq> None) xs \<noteq> []"
    by (simp add: filter_empty_conv del: not_None_eq)
  moreover have "last (filter (\<lambda>e. e \<noteq> None) xs) = last xs"
    using ne f by (induction xs rule: rev_induct) auto
  ultimately show ?thesis
    using ne by simp
qed

text \<open>
  What \<^verbatim>\<open>Close\<close> does in every state the loop reaches: it returns only through the
  loop's answer (and never when the loop has returned already), with the \<^verbatim>\<open>err\<close>
  result of the latest completed fetch; once it has returned the loop takes no further
  case, so the stream never yields another item.
\<close>

lemma Close_returns_latest_fetch_err:
  assumes "loop evs Subscribe = Some s"
  shows "Close now s =
           (if closed s then None
            else Some (last_fetch_err evs, s\<lparr>errc := Some (last_fetch_err evs), closed := True\<rparr>))
         \<and> (Close now s = Some (e, s') \<longrightarrow>
              loop_iter now Closing s = Some s' \<and> errc s' = Some e \<and> closed s'
              \<and> updates s' = updates s \<and> loop_iter now' ev s' = None
              \<and> (loop evs' s' = Some s'' \<longrightarrow> updates s'' = updates s))
         \<and> (fetch_errs evs \<noteq> [] \<and> last (fetch_errs evs) \<noteq> None \<longrightarrow>
              last_fetch_err evs = last_failure evs)
         \<and> (last_failure evs = None \<longrightarrow> last_fetch_err evs = None)"
proof -
  have "err s = last_fetch_err evs"
    using loop_err [OF assms] by (simp add: last_fetch_err_def Subscribe_def)
  then have a: "Close now s =
           (if closed s then None
            else Some (last_fetch_err evs, s\<lparr>errc := Some (last_fetch_err evs), closed := True\<rparr>))"
    by (simp add: Close_def loop_iter_def)
  have b: "loop_iter now Closing s = Some s' \<and> errc s' = Some e \<and> closed s'
           \<and> updates s' = updates s \<and> loop_iter now' ev s' = None
           \<and> (loop evs' s' = Some s'' \<longrightarrow> updates s'' = updates s)"
    if r: "Close now s = Some (e, s')"
  proof -
    from r have 1: "loop_iter now Closing s = Some s'" and 2: "errc s' = Some e"
      by (auto simp: Close_def split: option.splits)
    from 1 have 3: "closed s'" and 4: "updates s' = updates s"
      by (auto simp: loop_iter_def split: if_splits)
    have 5: "loop_iter now' ev s' = None"
      using 3 by (rule loop_iter_closed)
    have 6: "loop evs' s' = Some s'' \<longrightarrow> updates s'' = updates s"
      using loop_closed [OF 3, of evs' s''] 4 by auto
    show ?thesis
      using 1 2 3 4 5 6 by blast
  qed
  have c: "fetch_errs evs \<noteq> [] \<and> last (fetch_errs evs) \<noteq> None \<longrightarrow>
           last_fetch_err evs = last_failure evs"
    unfolding last_fetch_err_def last_failure_def
    using latest_failed [of "fetch_errs evs"] by blast
  have d: "last_failure evs = None \<longrightarrow> last_fetch_err evs = None"
    unfolding last_fetch_err_def last_failure_def
    using no_failure_all_None [of "fetch_errs evs"] by blast
  show ?thesis
    using a b c d by blast
qed

text \<open>
  C5. \<^verbatim>\<open>Close\<close> is to return the most recently recorded fetch failure, and nothing
  only when no fetch has failed; the interface says it returns the last fetch error, if
  any. The loop does not: every completed fetch overwrites its \<open>err\<close>, so after a fetch
  that fails with a timeout and a fetch that succeeds, \<^verbatim>\<open>Close\<close> returns no error,
  although the latest failure of the run is the timeout. The naive loop, which records
  an error only when a fetch fails, returns the timeout after the same two fetches.
\<close>

theorem Close_forgets_failure_after_success:
  "loop failure_then_success Subscribe \<noteq> None
   \<and> map_option fst (Close 10000000003 (the (loop failure_then_success Subscribe))) = Some None
   \<and> last_failure failure_then_success = Some (Error ''timeout'')
   \<and> naive_loop naive_failure_then_success NaiveSubscribe \<noteq> None
   \<and> fst (naiveSub_Close (the (naive_loop naive_failure_then_success NaiveSubscribe))) =
       Some (Error ''timeout'')"
  by (simp add: failure_then_success_def Subscribe_def loop_iter_def startFetch_def fetchDelay_def
      time_Sub_def maxDuration_def minDuration_def maxPending_def Close_def last_failure_def
      item_A_def second_def millisecond_def naive_failure_then_success_def NaiveSubscribe_def
      naiveSub_Close_def)

section \<open>Properties of the naive subscription\<close>

lemma naive_receive_all:
  "pc s = Sending its nxt \<Longrightarrow>
   naive_loop (replicate (length its) Receive) s =
     Some (s\<lparr>nupdates := nupdates s @ its, pc := Sending [] nxt\<rparr>)"
proof (induction its arbitrary: s)
  case Nil
  then show ?case by simp
next
  case (Cons item rest)
  let ?s1 = "s\<lparr>nupdates := nupdates s @ [item], pc := Sending rest nxt\<rparr>"
  have "naive_loop_step Receive s = Some ?s1"
    using Cons.prems by simp
  moreover have "pc ?s1 = Sending rest nxt" by simp
  ultimately show ?case
    using Cons.IH [of ?s1] by simp
qed

lemma naive_closes_only_at_top:
  "naive_loop_step ev s = Some s' \<Longrightarrow> \<not> nupdates_closed s \<Longrightarrow> nupdates_closed s' \<Longrightarrow>
   ev = LoopTop \<and> pc s = Top \<and> nclosed s"
  by (cases ev) (auto split: if_splits naive_pc.splits list.splits)

lemma delivering_B_reached:
  "naive_loop [LoopTop, FetchReturns [item_A, item_B] 5 None, Receive] NaiveSubscribe =
     Some delivering_B"
  by (simp add: NaiveSubscribe_def delivering_B_def)

text \<open>
  C10. \<^verbatim>\<open>naiveSub.Close\<close> always returns, at once and without any exchange with the
  loop: it sets the flag and returns the error recorded so far, and leaves the stream as
  it was. A step of the loop closes the stream only at the top of an iteration, with the
  flag set. So when the loop is sending a batch, the items still to send are all
  delivered after \<^verbatim>\<open>Close\<close> has returned.
\<close>

theorem naiveSub_Close_leaves_stream_open:
  "naiveSub_Close s = (nerr s, s\<lparr>nclosed := True\<rparr>)
   \<and> nupdates_closed (snd (naiveSub_Close s)) = nupdates_closed s
   \<and> (naive_loop_step ev s = Some s' \<and> \<not> nupdates_closed s \<and> nupdates_closed s' \<longrightarrow>
        ev = LoopTop \<and> pc s = Top \<and> nclosed s)
   \<and> (pc s = Sending its nxt \<longrightarrow>
        naive_loop (replicate (length its) Receive) (snd (naiveSub_Close s)) =
          Some (s\<lparr>nclosed := True, nupdates := nupdates s @ its, pc := Sending [] nxt\<rparr>))"
proof -
  have "pc s = Sending its nxt \<Longrightarrow>
        naive_loop (replicate (length its) Receive) (s\<lparr>nclosed := True\<rparr>) =
          Some (s\<lparr>nclosed := True, nupdates := nupdates s @ its, pc := Sending [] nxt\<rparr>)"
    using naive_receive_all [of "s\<lparr>nclosed := True\<rparr>" its nxt] by simp
  then show ?thesis
    using naive_closes_only_at_top [of ev s s'] by (simp add: naiveSub_Close_def)
qed

theorem naiveSub_Close_leaves_stream_open_witness:
  "naiveSub_Close delivering_B = (None, delivering_B\<lparr>nclosed := True\<rparr>)
   \<and> \<not> nupdates_closed (snd (naiveSub_Close delivering_B))
   \<and> naive_loop [Receive] (snd (naiveSub_Close delivering_B)) =
       Some (delivering_B\<lparr>nclosed := True, nupdates := [item_A, item_B], pc := Sending [] 5\<rparr>)
   \<and> naive_loop_step LoopTop (NaiveSubscribe\<lparr>nclosed := True\<rparr>) =
       Some (NaiveSubscribe\<lparr>nclosed := True, nupdates_closed := True, pc := Returned\<rparr>)"
  using naiveSub_Close_leaves_stream_open [of delivering_B LoopTop delivering_B "[item_B]" 5]
        naiveSub_Close_leaves_stream_open [of "NaiveSubscribe\<lparr>nclosed := True\<rparr>" LoopTop
          "NaiveSubscribe\<lparr>nclosed := True, nupdates_closed := True, pc := Returned\<rparr>" "[]" 0]
  by (simp add: delivering_B_def NaiveSubscribe_def naiveSub_Close_def)

section \<open>Properties of the naive merge\<close>

lemma Close_subs_eq:
  "Close_subs cl ss merr =
     (if \<exists>s \<in> set ss. cl s = None then None
      else Some (case merr of None \<Rightarrow> first_error (map (\<lambda>s. fst (the (cl s))) ss) | Some e \<Rightarrow> Some e,
                 map (\<lambda>s. snd (the (cl s))) ss))"
proof (induction ss arbitrary: merr)
  case Nil
  then show ?case by (simp add: first_error_def split: option.splits)
next
  case (Cons s ss)
  show ?case
  proof (cases "cl s")
    case None
    then show ?thesis by simp
  next
    case (Some p)
    obtain e s' where p: "p = (e, s')" by (cases p) auto
    let ?merr = "if merr = None \<and> e \<noteq> None then e else merr"
    show ?thesis
    proof (cases "\<exists>x \<in> set ss. cl x = None")
      case True
      then have "Close_subs cl ss ?merr = None"
        using Cons.IH [of ?merr] by simp
      then show ?thesis
        using Some p True by simp
    next
      case False
      then have "Close_subs cl ss ?merr =
          Some (case ?merr of None \<Rightarrow> first_error (map (\<lambda>s. fst (the (cl s))) ss) | Some e \<Rightarrow> Some e,
                map (\<lambda>s. snd (the (cl s))) ss)"
        using Cons.IH [of ?merr] by simp
      then show ?thesis
        using Some p False by (cases merr; cases e) (simp_all add: first_error_def)
    qed
  qed
qed

lemma Close_None: "(Close now s = None) = closed s"
  by (simp add: Close_def loop_iter_def)

lemma Close_open: "\<not> closed s \<Longrightarrow> Close now s = Some (err s, s\<lparr>errc := Some (err s), closed := True\<rparr>)"
  by (simp add: Close_def loop_iter_def)

lemma Close_subs_open:
  assumes "\<forall>s \<in> set ss. \<not> closed s"
  shows "Close_subs (Close now) ss None =
           Some (first_error (map err ss), map (\<lambda>s. s\<lparr>errc := Some (err s), closed := True\<rparr>) ss)"
proof -
  have n: "\<not> (\<exists>s \<in> set ss. Close now s = None)"
    using assms by (simp add: Close_None)
  have f: "map (\<lambda>s. fst (the (Close now s))) ss = map err ss"
    using assms by (simp add: Close_open)
  have g: "map (\<lambda>s. snd (the (Close now s))) ss =
           map (\<lambda>s. s\<lparr>errc := Some (err s), closed := True\<rparr>) ss"
    using assms by (simp add: Close_open)
  show ?thesis
    by (simp only: Close_subs_eq n f g if_False option.case)
qed

text \<open>
  C6. \<^verbatim>\<open>naiveMerge.Close\<close> returns only when the \<^verbatim>\<open>Close\<close> of every child has
  returned; it then returns the first error that is not nil among the children's
  results, in the order of the children, and no error when there is none; every child
  has been closed, and the merged stream is closed. For children that are single-source
  subscriptions, the result is the first recorded error among them and each child's
  loop has returned.
\<close>

theorem naiveMerge_Close_first_error:
  "naiveMerge_Close cl m =
     (if (\<exists>s \<in> set (subs m). cl s = None) \<or> m_closed m then None
      else Some (first_error (map (\<lambda>s. fst (the (cl s))) (subs m)),
                 m\<lparr>subs := map (\<lambda>s. snd (the (cl s))) (subs m), m_closed := True\<rparr>))
   \<and> (naiveMerge_Close (Close now) sm = Some (e, sm') \<longrightarrow>
        e = first_error (map err (subs sm)) \<and> (\<forall>s \<in> set (subs sm'). closed s) \<and> m_closed sm')"
proof -
  have a: "naiveMerge_Close cl m =
     (if (\<exists>s \<in> set (subs m). cl s = None) \<or> m_closed m then None
      else Some (first_error (map (\<lambda>s. fst (the (cl s))) (subs m)),
                 m\<lparr>subs := map (\<lambda>s. snd (the (cl s))) (subs m), m_closed := True\<rparr>))"
  proof (cases "\<exists>s \<in> set (subs m). cl s = None")
    case True
    then show ?thesis
      by (simp add: naiveMerge_Close_def Close_subs_eq)
  next
    case False
    then show ?thesis
      by (simp add: naiveMerge_Close_def Close_subs_eq del: not_None_eq)
  qed
  have b: "e = first_error (map err (subs sm)) \<and> (\<forall>s \<in> set (subs sm'). closed s) \<and> m_closed sm'"
    if r: "naiveMerge_Close (Close now) sm = Some (e, sm')"
  proof -
    have op: "\<forall>s \<in> set (subs sm). \<not> closed s"
    proof (rule ccontr)
      assume "\<not> (\<forall>s \<in> set (subs sm). \<not> closed s)"
      then have "\<exists>s \<in> set (subs sm). Close now s = None"
        by (simp add: Close_None)
      then have "Close_subs (Close now) (subs sm) None = None"
        by (simp add: Close_subs_eq)
      with r show False
        by (simp add: naiveMerge_Close_def)
    qed
    show ?thesis
      using r Close_subs_open [OF op, of now]
      by (auto simp: naiveMerge_Close_def split: if_splits)
  qed
  show ?thesis
    using a b by blast
qed

theorem naiveMerge_Close_first_error_witness:
  "naiveMerge_Close (Close 0)
     (NaiveMerge [Subscribe, Subscribe\<lparr>err := Some (Error ''e1'')\<rparr>,
                  Subscribe\<lparr>err := Some (Error ''e2'')\<rparr>]) =
   Some (Some (Error ''e1''),
     \<lparr>subs = [Subscribe\<lparr>errc := Some None, closed := True\<rparr>,
              Subscribe\<lparr>err := Some (Error ''e1''), errc := Some (Some (Error ''e1'')), closed := True\<rparr>,
              Subscribe\<lparr>err := Some (Error ''e2''), errc := Some (Some (Error ''e2'')), closed := True\<rparr>],
      m_updates = [], m_closed = True, forwarders = [Ranging, Ranging, Ranging]\<rparr>)
   \<and> first_error (map err [Subscribe, Subscribe\<lparr>err := Some (Error ''e1'')\<rparr>,
                  Subscribe\<lparr>err := Some (Error ''e2'')\<rparr>]) = Some (Error ''e1'')"
  using naiveMerge_Close_first_error [of "Close 0"
     "NaiveMerge [Subscribe, Subscribe\<lparr>err := Some (Error ''e1'')\<rparr>,
                  Subscribe\<lparr>err := Some (Error ''e2'')\<rparr>]" 0
     "NaiveMerge [Subscribe, Subscribe\<lparr>err := Some (Error ''e1'')\<rparr>,
                  Subscribe\<lparr>err := Some (Error ''e2'')\<rparr>]"
     "Some (Error ''e1'')"
     "\<lparr>subs = [Subscribe\<lparr>errc := Some None, closed := True\<rparr>,
              Subscribe\<lparr>err := Some (Error ''e1''), errc := Some (Some (Error ''e1'')), closed := True\<rparr>,
              Subscribe\<lparr>err := Some (Error ''e2''), errc := Some (Some (Error ''e2'')), closed := True\<rparr>],
      m_updates = [], m_closed = True, forwarders = [Ranging, Ranging, Ranging]\<rparr>"]
  by (simp add: NaiveMerge_def Subscribe_def Close_def loop_iter_def first_error_def)

lemma merge_step_no_children:
  "merge_step ev m = Some m' \<Longrightarrow> subs m = [] \<Longrightarrow> forwarders m = [] \<Longrightarrow> m_updates m = [] \<Longrightarrow>
   subs m' = [] \<and> forwarders m' = [] \<and> m_updates m' = [] \<and> (m_closed m \<longrightarrow> m_closed m')"
  by (cases ev) (auto simp: naiveMerge_Close_def split: if_splits option.splits)

lemma merge_run_no_children:
  "merge_run evs m = Some m' \<Longrightarrow> subs m = [] \<Longrightarrow> forwarders m = [] \<Longrightarrow> m_updates m = [] \<Longrightarrow>
   subs m' = [] \<and> forwarders m' = [] \<and> m_updates m' = [] \<and> (m_closed m \<longrightarrow> m_closed m')"
proof (induction evs arbitrary: m)
  case Nil
  then show ?case by simp
next
  case (Cons ev evs)
  from Cons.prems(1) obtain m1 where
    m1: "merge_step ev m = Some m1" and rest: "merge_run evs m1 = Some m'"
    by (auto split: option.splits)
  have st: "subs m1 = [] \<and> forwarders m1 = [] \<and> m_updates m1 = [] \<and> (m_closed m \<longrightarrow> m_closed m1)"
    using merge_step_no_children [OF m1 Cons.prems(2,3,4)] .
  then show ?case
    using Cons.IH [OF rest] by blast
qed

text \<open>
  C7. A merge of no subscriptions has no forwarding goroutine; its \<^verbatim>\<open>Close\<close> returns
  at once with no error, whatever the children's \<^verbatim>\<open>Close\<close> would be, and closes the
  merged stream; and along every run of the merge, before and after the close, the merged
  stream has delivered no item.
\<close>

theorem NaiveMerge_of_nothing:
  "naiveMerge_Close cl (NaiveMerge []) = Some (None, (NaiveMerge [])\<lparr>m_closed := True\<rparr>)
   \<and> forwarders (NaiveMerge []) = []
   \<and> (merge_run evs (NaiveMerge []) = Some m \<longrightarrow> m_updates m = [])
   \<and> (merge_run evs ((NaiveMerge [])\<lparr>m_closed := True\<rparr>) = Some m \<longrightarrow>
        m_updates m = [] \<and> m_closed m)"
proof -
  have a: "naiveMerge_Close cl (NaiveMerge []) = Some (None, (NaiveMerge [])\<lparr>m_closed := True\<rparr>)"
    by (simp add: naiveMerge_Close_def NaiveMerge_def)
  have b: "merge_run evs (NaiveMerge []) = Some m \<Longrightarrow> m_updates m = []"
    using merge_run_no_children [of evs "NaiveMerge []" m] by (simp add: NaiveMerge_def)
  have c: "merge_run evs ((NaiveMerge [])\<lparr>m_closed := True\<rparr>) = Some m \<Longrightarrow>
           m_updates m = [] \<and> m_closed m"
    using merge_run_no_children [of evs "(NaiveMerge [])\<lparr>m_closed := True\<rparr>" m]
    by (simp add: NaiveMerge_def)
  show ?thesis
    using a b c by (simp add: NaiveMerge_def)
qed

theorem NaiveMerge_of_nothing_witness:
  "naiveMerge_Close (Close 0) (NaiveMerge []) = Some (None, (NaiveMerge [])\<lparr>m_closed := True\<rparr>)
   \<and> merge_run [Merge_Close 0] (NaiveMerge []) = Some ((NaiveMerge [])\<lparr>m_closed := True\<rparr>)
   \<and> merge_run [] ((NaiveMerge [])\<lparr>m_closed := True\<rparr>) = Some ((NaiveMerge [])\<lparr>m_closed := True\<rparr>)
   \<and> m_updates ((NaiveMerge [] :: sub naiveMerge)\<lparr>m_closed := True\<rparr>) = []"
  using NaiveMerge_of_nothing [of "Close 0" "[Merge_Close 0]" "(NaiveMerge [])\<lparr>m_closed := True\<rparr>"]
        NaiveMerge_of_nothing [of "Close 0" "[]" "(NaiveMerge [])\<lparr>m_closed := True\<rparr>"]
  by (simp add: NaiveMerge_def naiveMerge_Close_def)

text \<open>
  C8. The merged stream is to be closed only after every forwarding goroutine has
  finished. On the code \<^verbatim>\<open>naiveMerge.Close\<close> closes the children and then
  \<^verbatim>\<open>m.updates\<close> without waiting for the forwarders: in a merge of one subscription
  whose forwarder has received A and is sending it, \<^verbatim>\<open>Close\<close> returns with the merged
  stream closed while the forwarder still holds A, and the forwarder's send then meets the
  closed channel.
\<close>

theorem forwarder_sends_after_close:
  "merge_run close_while_holding (NaiveMerge [Subscribe]) \<noteq> None
   \<and> m_closed (the (merge_run close_while_holding (NaiveMerge [Subscribe])))
   \<and> forwarders (the (merge_run close_while_holding (NaiveMerge [Subscribe]))) = [Holding item_A]
   \<and> map_option forwarders
         (merge_run (close_while_holding @ [Forward_send 0]) (NaiveMerge [Subscribe]))
       = Some [Panicked]"
  by (simp add: close_while_holding_def NaiveMerge_def Subscribe_def loop_iter_def startFetch_def fetchDelay_def time_Sub_def maxDuration_def minDuration_def
      maxPending_def first_updates_def naiveMerge_Close_def Close_def item_A_def)

end
